theory Spec2Isabelle
  imports Complex_Main "HOL-Library.AList" "HOL-Library.Sublist" "HOL-Library.Multiset"
begin

section \<open>The Huffman coding engine of huffman.py\<close>

subsection \<open>Nodes and exceptions\<close>

text \<open>
  Class \<open>HuffmanNode\<close>: the fields \<open>symbol\<close> (\<open>None\<close> for an internal node), \<open>prob\<close>,
  \<open>left\<close> and \<open>right\<close> (both optional). The code only ever compares weights
  (\<open>sort(key=prob)\<close>) and adds them, so the weight type is kept abstract: any linear
  order with an addition. The class defines \<open>__lt__\<close> only, so \<open>!=\<close> on nodes is
  object identity; in a tree a node reached by walking down from the root is never the
  root, exactly as a proper subterm of a datatype value is never equal to the value.
\<close>

datatype 'w HuffmanNode =
  HuffmanNode (symbol: "string option") (prob: 'w)
    (left: "'w HuffmanNode option") (right: "'w HuffmanNode option")

text \<open>The constructor \<open>__init__(symbol, prob)\<close> leaves both children \<open>None\<close>.\<close>

definition init_node :: "string option \<Rightarrow> 'w \<Rightarrow> 'w HuffmanNode" where
  "init_node s p = HuffmanNode s p None None"

text \<open>
  Every failure the module raises on purpose is a \<open>ValueError\<close> told apart by its
  message only; the messages are enumerated here in the order they occur in the file.
  The two formatted messages carry the character they print and nothing else.
  \<open>KeyError\<close> is what an unguarded dictionary lookup \<open>codes[symbol]\<close> raises.
\<close>

datatype message =
  CountMismatch
  | EmptyTree
  | NegativeProbability
  | SymbolNotInAlphabet char
  | InvalidBit char
  | MalformedTree
  | IncompleteCode

datatype exn = ValueError message | KeyError string

subsection \<open>build_huffman_tree\<close>

text \<open>
  One iteration of the \<open>while len(nodes) > 1\<close> loop: the stable in-place sort by
  \<open>prob\<close>, two \<open>pop(0)\<close>, and the parent appended at the end of the list. The sort
  keeps the length, so with at least two nodes both pops succeed; the last case of
  the \<open>case\<close> is never reached.
\<close>

function merge_loop :: "('w::{linorder,plus}) HuffmanNode list \<Rightarrow> 'w HuffmanNode list" where
  "merge_loop nodes =
     (if length nodes > 1 then
        (case sort_key prob nodes of
           l # r # rest \<Rightarrow>
             merge_loop (rest @ [HuffmanNode None (prob l + prob r) (Some l) (Some r)])
         | _ \<Rightarrow> nodes)
      else nodes)"
  by pat_completeness auto
termination
proof (relation "measure length", goal_cases)
  case 1
  show ?case by simp
next
  case (2 nodes l ys r rest)
  have "length (sort_key prob nodes) = length nodes" by simp
  with 2 show ?case by simp
qed

declare merge_loop.simps [simp del]

definition build_huffman_tree ::
  "string list \<Rightarrow> ('w::{linorder,plus}) list \<Rightarrow> exn + 'w HuffmanNode option" where
  "build_huffman_tree symbols probs =
     (if length symbols \<noteq> length probs then Inl (ValueError CountMismatch)
      else
        (let nodes = map (\<lambda>i. init_node (Some (symbols ! i)) (probs ! i)) [0..<length symbols]
         in case merge_loop nodes of
              [] \<Rightarrow> Inr None
            | n # _ \<Rightarrow> Inr (Some n)))"

subsection \<open>generate_huffman_codes\<close>

text \<open>
  The dictionary \<open>codes\<close> is an association list in insertion order; an assignment
  \<open>codes[k] = v\<close> is \<open>AList.update\<close>, which overwrites in place or appends.
\<close>

fun traverse ::
  "'w HuffmanNode option \<Rightarrow> string \<Rightarrow> (string \<times> string) list \<Rightarrow> (string \<times> string) list" where
  "traverse None current_code codes = codes"
| "traverse (Some (HuffmanNode smb p l r)) current_code codes =
     (case smb of
        Some s \<Rightarrow> AList.update s current_code codes
      | None \<Rightarrow> traverse r (current_code @ ''1'') (traverse l (current_code @ ''0'') codes))"

definition generate_huffman_codes ::
  "'w HuffmanNode option \<Rightarrow> exn + (string \<times> string) list" where
  "generate_huffman_codes root_node =
     (case root_node of
        None \<Rightarrow> Inl (ValueError EmptyTree)
      | Some _ \<Rightarrow> Inr (traverse root_node [] []))"

subsection \<open>calculate_average_length and check_kraft_inequality\<close>

fun average_loop ::
  "(string \<times> string) list \<Rightarrow> real list \<Rightarrow> (nat \<times> string) list \<Rightarrow> real \<Rightarrow> exn + real" where
  "average_loop codes probs [] avg_len = Inr avg_len"
| "average_loop codes probs ((i, s) # rest) avg_len =
     (case map_of codes s of
        None \<Rightarrow> Inl (KeyError s)
      | Some code \<Rightarrow> average_loop codes probs rest (avg_len + probs ! i * real (length code)))"

definition calculate_average_length ::
  "(string \<times> string) list \<Rightarrow> string list \<Rightarrow> real list \<Rightarrow> exn + real" where
  "calculate_average_length codes symbols probs =
     (if length symbols \<noteq> length probs then Inl (ValueError CountMismatch)
      else average_loop codes probs (List.enumerate 0 symbols) 0)"

text \<open>
  \<open>calculate_average_length\<close> above is read over the real numbers: only its failures
  are stated below. \<open>check_kraft_inequality\<close> is modelled in double precision. Every
  value of \<open>kraft_sum\<close> is a non-negative double: \<open>Finite m e\<close> stands for
  \<open>m * 2 ^ e\<close>, \<open>Infinity\<close> for \<open>inf\<close>.
\<close>

datatype double = Finite nat int | Infinity

definition dval :: "nat \<Rightarrow> int \<Rightarrow> real" where
  "dval m e = real m * 2 powi e"

text \<open>The number of binary digits of a natural number.\<close>

fun bit_length :: "nat \<Rightarrow> nat" where
  "bit_length n = (if n = 0 then 0 else Suc (bit_length (n div 2)))"

declare bit_length.simps [simp del]

text \<open>
  Rounding the exact value \<open>M * 2 ^ e\<close> to a significand of 53 binary digits, to
  nearest with ties to even, and to \<open>inf\<close> from \<open>2 ^ 1024\<close> on. The exponent of a
  double is at least \<open>-1074\<close>, so a sum that needs rounding is a normal number.
\<close>

definition round_double :: "nat \<Rightarrow> int \<Rightarrow> double" where
  "round_double M e =
     (let sh = bit_length M - 53;
          q = M div 2 ^ sh;
          r = M mod 2 ^ sh;
          q' = (if 2 ^ sh < 2 * r \<or> (2 * r = 2 ^ sh \<and> odd q) then Suc q else q)
      in if 2 powi 1024 \<le> dval q' (e + int sh) then Infinity else Finite q' (e + int sh))"

text \<open>The addition \<open>kraft_sum += ...\<close>: the exact sum, rounded once.\<close>

fun float_add :: "double \<Rightarrow> double \<Rightarrow> double" where
  "float_add (Finite m1 e1) (Finite m2 e2) =
     (let e = min e1 e2
      in round_double (m1 * 2 ^ nat (e1 - e) + m2 * 2 ^ nat (e2 - e)) e)"
| "float_add _ _ = Infinity"

text \<open>
  The term \<open>2 ** (-len(code))\<close>: the power of two itself down to the smallest
  subnormal \<open>2 ^ (-1074)\<close>, and \<open>0.0\<close> below it.
\<close>

definition pow2_neg :: "nat \<Rightarrow> double" where
  "pow2_neg n = (if n \<le> 1074 then Finite 1 (- int n) else Finite 0 0)"

fun kraft_loop :: "string list \<Rightarrow> double \<Rightarrow> double" where
  "kraft_loop [] kraft_sum = kraft_sum"
| "kraft_loop (code # rest) kraft_sum =
     kraft_loop rest (float_add kraft_sum (pow2_neg (length code)))"

definition check_kraft_inequality :: "(string \<times> string) list \<Rightarrow> bool \<times> double" where
  "check_kraft_inequality codes =
     (let kraft_sum = kraft_loop (map snd codes) (Finite 0 0)
      in (case kraft_sum of Finite m e \<Rightarrow> dval m e \<le> 1 | Infinity \<Rightarrow> False, kraft_sum))"

subsection \<open>encode_string and decode_string\<close>

text \<open>
  Iterating a Python string yields its characters one at a time, so the dictionary is
  asked for the one-character string \<open>[char]\<close>.
\<close>

fun encode_loop :: "string \<Rightarrow> (string \<times> string) list \<Rightarrow> string \<Rightarrow> exn + string" where
  "encode_loop [] codes encoded = Inr encoded"
| "encode_loop (char # rest) codes encoded =
     (case map_of codes [char] of
        Some code \<Rightarrow> encode_loop rest codes (encoded @ code)
      | None \<Rightarrow> Inl (ValueError (SymbolNotInAlphabet char)))"

definition encode_string :: "string \<Rightarrow> (string \<times> string) list \<Rightarrow> exn + string" where
  "encode_string input_string codes = encode_loop input_string codes []"

text \<open>
  The body of the decoder's \<open>for\<close> loop after the move: a missing child is the
  malformed-tree error, a node with a symbol is emitted and the walk restarts at the
  root. The loop returns the pair \<open>(decoded, current_node)\<close> it ends with.
\<close>

fun decode_loop ::
  "string \<Rightarrow> 'w HuffmanNode \<Rightarrow> string \<Rightarrow> 'w HuffmanNode \<Rightarrow> exn + (string \<times> 'w HuffmanNode)" where
  "decode_loop [] root_node decoded current_node = Inr (decoded, current_node)"
| "decode_loop (bit_c # rest) root_node decoded current_node =
     (if bit_c \<noteq> CHR ''0'' \<and> bit_c \<noteq> CHR ''1'' then Inl (ValueError (InvalidBit bit_c))
      else
        (case (if bit_c = CHR ''0'' then left current_node else right current_node) of
           None \<Rightarrow> Inl (ValueError MalformedTree)
         | Some n \<Rightarrow>
             (case symbol n of
                Some s \<Rightarrow> decode_loop rest root_node (decoded @ s) root_node
              | None \<Rightarrow> decode_loop rest root_node decoded n)))"

definition decode_string :: "string \<Rightarrow> 'w HuffmanNode \<Rightarrow> exn + string" where
  "decode_string encoded_string root_node =
     (case decode_loop encoded_string root_node [] root_node of
        Inl e \<Rightarrow> Inl e
      | Inr (decoded, current_node) \<Rightarrow>
          if current_node \<noteq> root_node then Inl (ValueError IncompleteCode) else Inr decoded)"

subsection \<open>The tie-break policy as the specification words it\<close>

text \<open>
  The working collection is kept in insertion order: the initial leaves in alphabet
  order, every merged node appended behind all nodes present when it is created.
  \<open>extract_min\<close> takes out the node of smallest weight and, among several of that
  weight, the one inserted earliest (the leftmost): the head wins against the minimum of
  the rest exactly when its weight is not larger. With at least two nodes both
  extractions succeed, so the \<open>None\<close> cases of the merge are never reached.
\<close>

fun extract_min ::
  "('w::linorder) HuffmanNode list \<Rightarrow> ('w HuffmanNode \<times> 'w HuffmanNode list) option" where
  "extract_min [] = None"
| "extract_min (x # xs) =
     (case extract_min xs of
        None \<Rightarrow> Some (x, [])
      | Some (m, rest) \<Rightarrow> if prob x \<le> prob m then Some (x, xs) else Some (m, x # rest))"

function earliest_min_merge ::
  "('w::{linorder,plus}) HuffmanNode list \<Rightarrow> 'w HuffmanNode list" where
  "earliest_min_merge ws =
     (if length ws > 1 then
        (case extract_min ws of
           Some (l, ws1) \<Rightarrow>
             (case extract_min ws1 of
                Some (r, ws2) \<Rightarrow>
                  earliest_min_merge
                    (ws2 @ [HuffmanNode None (prob l + prob r) (Some l) (Some r)])
              | None \<Rightarrow> ws)
         | None \<Rightarrow> ws)
      else ws)"
  by pat_completeness auto
termination
proof (relation "measure length", goal_cases)
  case 1
  show ?case by simp
next
  case (2 ws x2 l ws1 y r ws2)
  have none: "extract_min zs = None \<Longrightarrow> zs = []" for zs :: "'a HuffmanNode list"
    by (cases zs) (auto split: option.splits prod.splits if_splits)
  have len: "extract_min zs = Some (m, rest) \<Longrightarrow> length zs = Suc (length rest)"
    for zs :: "'a HuffmanNode list" and m rest
    by (induction zs arbitrary: m rest)
       (auto split: option.splits if_splits dest: none)
  from 2 show ?case by (auto dest!: len)
qed

declare earliest_min_merge.simps [simp del]

definition earliest_min_build ::
  "string list \<Rightarrow> ('w::{linorder,plus}) list \<Rightarrow> exn + 'w HuffmanNode option" where
  "earliest_min_build symbols probs =
     (if length symbols \<noteq> length probs then Inl (ValueError CountMismatch)
      else
        (case earliest_min_merge (map (\<lambda>(s, p). init_node (Some s) p) (zip symbols probs)) of
           [] \<Rightarrow> Inr None
         | n # _ \<Rightarrow> Inr (Some n)))"

subsection \<open>The decoder as the specification's state machine\<close>

text \<open>
  The state is the pair of the symbols emitted so far and the current node. One bit
  moves to the left child on \<open>0\<close> and to the right child on \<open>1\<close>; any other character
  is an invalid bit, an absent child is a malformed tree, and a node with a symbol is
  emitted with the current node reset to the root. A failure is kept to the end.
\<close>

definition sm_step ::
  "'w HuffmanNode \<Rightarrow> exn + (string \<times> 'w HuffmanNode) \<Rightarrow> char \<Rightarrow> exn + (string \<times> 'w HuffmanNode)" where
  "sm_step root_node st b =
     (case st of
        Inl e \<Rightarrow> Inl e
      | Inr (out, cur) \<Rightarrow>
          (case (if b = CHR ''0'' then Inr (left cur)
                 else if b = CHR ''1'' then Inr (right cur)
                 else Inl (ValueError (InvalidBit b))) of
             Inl e \<Rightarrow> Inl e
           | Inr None \<Rightarrow> Inl (ValueError MalformedTree)
           | Inr (Some n) \<Rightarrow>
               (case symbol n of Some s \<Rightarrow> Inr (out @ s, root_node) | None \<Rightarrow> Inr (out, n))))"

definition sm_run :: "'w HuffmanNode \<Rightarrow> string \<Rightarrow> exn + (string \<times> 'w HuffmanNode)" where
  "sm_run root_node bits = foldl (sm_step root_node) (Inr ([], root_node)) bits"

subsection \<open>Root-to-leaf paths\<close>

text \<open>
  The pairs (symbol, path) of the nodes that carry a symbol, in the order the
  depth-first traversal meets them, each path prefixed with \<open>pre\<close>. The traversal
  stops at a node with a symbol, whatever children it has.
\<close>

fun leaf_paths :: "'w HuffmanNode option \<Rightarrow> string \<Rightarrow> (string \<times> string) list" where
  "leaf_paths None pre = []"
| "leaf_paths (Some (HuffmanNode smb p l r)) pre =
     (case smb of
        Some s \<Rightarrow> [(s, pre)]
      | None \<Rightarrow> leaf_paths l (pre @ ''0'') @ leaf_paths r (pre @ ''1''))"

text \<open>The symbols at the leaves of a list of trees (the working list of the builder).\<close>

definition forest_symbols :: "'w HuffmanNode list \<Rightarrow> string set" where
  "forest_symbols nodes = (\<Union>n \<in> set nodes. fst ` set (leaf_paths (Some n) []))"

section \<open>Properties\<close>

subsection \<open>The merge loop\<close>

lemma sorted_two_or_more:
  assumes "1 < length nodes"
  obtains l r rest where "sort_key prob nodes = l # r # rest"
proof -
  have "length (sort_key prob nodes) = length nodes" by simp
  with assms show thesis
    by (cases "sort_key prob nodes"; cases "tl (sort_key prob nodes)") (auto intro: that)
qed

lemma merge_loop_step:
  "1 < length nodes \<Longrightarrow> sort_key prob nodes = l # r # rest \<Longrightarrow>
   merge_loop nodes = merge_loop (rest @ [HuffmanNode None (prob l + prob r) (Some l) (Some r)])"
  by (subst merge_loop.simps) simp

lemma merge_loop_stop: "\<not> 1 < length nodes \<Longrightarrow> merge_loop nodes = nodes"
  by (subst merge_loop.simps) simp

lemma merge_loop_single: "nodes \<noteq> [] \<Longrightarrow> \<exists>n. merge_loop nodes = [n]"
proof (induction nodes rule: merge_loop.induct)
  case (1 nodes)
  show ?case
  proof (cases "1 < length nodes")
    case False
    with 1(2) obtain n where "nodes = [n]" by (cases nodes) auto
    then show ?thesis by (simp add: merge_loop_stop)
  next
    case True
    then obtain l r rest where s: "sort_key prob nodes = l # r # rest"
      by (rule sorted_two_or_more)
    have "\<exists>n. merge_loop (rest @ [HuffmanNode None (prob l + prob r) (Some l) (Some r)]) = [n]"
      using 1(1)[OF True s refl] by simp
    then show ?thesis by (simp add: merge_loop_step[OF True s])
  qed
qed

lemma initial_nodes_zip:
  "length symbols = length probs \<Longrightarrow>
   map (\<lambda>i. init_node (Some (symbols ! i)) (probs ! i)) [0..<length symbols] =
   map (\<lambda>(s, p). init_node (Some s) p) (zip symbols probs)"
  by (rule nth_equalityI) simp_all

subsection \<open>The stable sort takes the earliest minimum\<close>

lemma extract_min_sort:
  "ws \<noteq> [] \<Longrightarrow>
   \<exists>m rest. extract_min ws = Some (m, rest) \<and> sort_key prob ws = m # sort_key prob rest"
proof (induction ws)
  case Nil
  then show ?case by simp
next
  case (Cons x xs)
  show ?case
  proof (cases "xs = []")
    case True
    then show ?thesis by simp
  next
    case False
    from Cons.IH[OF False] obtain m rest where
      "extract_min xs = Some (m, rest)" and "sort_key prob xs = m # sort_key prob rest"
      by blast
    then show ?thesis by simp
  qed
qed

lemma sort_key_append_sorted: "sort_key f (sort_key f xs @ ys) = sort_key f (xs @ ys)"
proof (rule properties_for_sort_key)
  show "mset (sort_key f (xs @ ys)) = mset (sort_key f xs @ ys)" by simp
  show "sorted (map f (sort_key f (xs @ ys)))" by simp
  fix k
  have flip: "filter (\<lambda>x. f k = f x) zs = filter (\<lambda>y. f y = f k) zs" for zs
    by (rule filter_cong) auto
  show "filter (\<lambda>x. f k = f x) (sort_key f (xs @ ys)) =
        filter (\<lambda>x. f k = f x) (sort_key f xs @ ys)"
    unfolding flip by (simp add: sort_key_stable)
qed

text \<open>
  The two versions hold different lists (the code's is sorted up to the last parent, the
  other is in insertion order), but both lists sort to the same list, and that is all
  the next iteration looks at.
\<close>

lemma merge_refines:
  "sort_key prob xs = sort_key prob ys \<Longrightarrow> merge_loop xs = earliest_min_merge ys"
proof (induction xs arbitrary: ys rule: merge_loop.induct)
  case (1 nodes)
  have len: "length nodes = length ys"
    using arg_cong[OF 1(2), of length] by simp
  show ?case
  proof (cases "1 < length nodes")
    case False
    then have "sort_key prob nodes = nodes" "sort_key prob ys = ys"
      using len by (cases nodes; cases ys; simp)+
    with 1(2) False show ?thesis
      by (simp add: merge_loop_stop earliest_min_merge.simps)
  next
    case True
    then obtain l r rest where s: "sort_key prob nodes = l # r # rest"
      by (rule sorted_two_or_more)
    from True len have "ys \<noteq> []" by auto
    from extract_min_sort[OF this] obtain m ys1 where
      e1: "extract_min ys = Some (m, ys1)" and s1: "sort_key prob ys = m # sort_key prob ys1"
      by blast
    from s s1 1(2) have m: "m = l" and t1: "sort_key prob ys1 = r # rest" by simp_all
    then have "ys1 \<noteq> []" by auto
    from extract_min_sort[OF this] obtain m2 ys2 where
      e2: "extract_min ys1 = Some (m2, ys2)" and s2: "sort_key prob ys1 = m2 # sort_key prob ys2"
      by blast
    from t1 s2 have m2: "m2 = r" and t2: "sort_key prob ys2 = rest" by simp_all
    let ?p = "HuffmanNode None (prob l + prob r) (Some l) (Some r)"
    have "sort_key prob (rest @ [?p]) = sort_key prob (ys2 @ [?p])"
      using sort_key_append_sorted[of prob ys2 "[?p]"] t2 by simp
    from 1(1)[OF True s refl this]
    have "merge_loop (rest @ [?p]) = earliest_min_merge (ys2 @ [?p])" .
    moreover have "merge_loop nodes = merge_loop (rest @ [?p])"
      by (rule merge_loop_step[OF True s])
    moreover have "earliest_min_merge ys = earliest_min_merge (ys2 @ [?p])"
      using True len e1 e2 m m2 by (subst earliest_min_merge.simps) simp
    ultimately show ?thesis by simp
  qed
qed

text \<open>
  C3. The tree \<open>build_huffman_tree\<close> returns is the tree of the builder that keeps its
  working collection in insertion order (initial leaves in alphabet order, merged nodes
  in creation order) and at every merge step extracts, twice, the node of minimum weight
  inserted earliest. The result is a function of the symbols and weights alone.
\<close>

theorem C3_earliest_inserted_minimum_first:
  "build_huffman_tree symbols probs = earliest_min_build symbols probs"
proof (cases "length symbols = length probs")
  case False
  then show ?thesis by (simp add: build_huffman_tree_def earliest_min_build_def)
next
  case True
  have "merge_loop (map (\<lambda>(s, p). init_node (Some s) p) (zip symbols probs)) =
        earliest_min_merge (map (\<lambda>(s, p). init_node (Some s) p) (zip symbols probs))"
    by (rule merge_refines) simp
  with True show ?thesis
    unfolding build_huffman_tree_def earliest_min_build_def Let_def
      initial_nodes_zip[OF True]
    by simp
qed

subsection \<open>Failures of the tree builder\<close>

text \<open>
  C4, as amended. \<open>build_huffman_tree\<close> never looks at the sign of a weight: it fails
  exactly when the two lists differ in length, and then with the count-mismatch
  \<open>ValueError\<close>. Negative weights and zero weights are both accepted.
\<close>

theorem C4_only_count_mismatch_fails:
  "build_huffman_tree symbols probs = Inl e \<longleftrightarrow>
     length symbols \<noteq> length probs \<and> e = ValueError CountMismatch"
  by (cases "length symbols = length probs")
     (auto simp: build_huffman_tree_def Let_def split: list.splits)

text \<open>The claim as stated fails: a negative weight is accepted and a tree comes back.\<close>

theorem C4_negative_weight_accepted:
  "build_huffman_tree [''a'', ''b''] [- 1, 2 :: real] =
     Inr (Some (HuffmanNode None 1
       (Some (HuffmanNode (Some ''a'') (- 1) None None))
       (Some (HuffmanNode (Some ''b'') 2 None None))))"
  by (simp add: build_huffman_tree_def merge_loop.simps init_node_def upt_rec)

text \<open>
  C5, as amended. For the empty alphabet \<open>build_huffman_tree\<close> does not fail: it returns
  \<open>None\<close>, the absent tree, which \<open>generate_huffman_codes\<close> then rejects with the
  empty-tree \<open>ValueError\<close>.
\<close>

theorem C5_empty_alphabet_returns_None:
  "build_huffman_tree [] ([] :: ('w::{linorder,plus}) list) = Inr None \<and>
   generate_huffman_codes (None :: 'w HuffmanNode option) = Inl (ValueError EmptyTree)"
  by (simp add: build_huffman_tree_def merge_loop.simps generate_huffman_codes_def)

text \<open>The claim as stated fails: the call on two empty lists returns normally.\<close>

theorem C5_empty_alphabet_no_error:
  "build_huffman_tree [] ([] :: real list) = Inr None"
  by (simp add: build_huffman_tree_def merge_loop.simps)

subsection \<open>Encoder\<close>

lemma encode_loop_char:
  "encode_loop s codes acc =
     (case find (\<lambda>c. map_of codes [c] = None) s of
        None \<Rightarrow> Inr (acc @ concat (map (\<lambda>c. the (map_of codes [c])) s))
      | Some c \<Rightarrow> Inl (ValueError (SymbolNotInAlphabet c)))"
  by (induction s arbitrary: acc) (auto split: option.splits)

text \<open>
  C8, as amended. When every character of the input has an entry in the table,
  \<open>encode_string\<close> returns the codewords concatenated in input order, so the output
  length is the sum of the codeword lengths, and the empty input gives the empty
  bitstring. When some character has no entry, it fails with the \<open>ValueError\<close> whose
  message names the first such character; the exception names the character only, not
  where it stands.
\<close>

theorem C8_encode_concatenates_or_names_symbol:
  "((\<forall>c \<in> set s. map_of codes [c] \<noteq> None) \<longrightarrow>
      encode_string s codes = Inr (concat (map (\<lambda>c. the (map_of codes [c])) s)) \<and>
      length (concat (map (\<lambda>c. the (map_of codes [c])) s)) =
        (\<Sum>c\<leftarrow>s. length (the (map_of codes [c])))) \<and>
   encode_string [] codes = Inr [] \<and>
   ((\<forall>c \<in> set pre. map_of codes [c] \<noteq> None) \<and> map_of codes [x] = None \<longrightarrow>
      encode_string (pre @ x # post) codes = Inl (ValueError (SymbolNotInAlphabet x)))"
proof (intro conjI impI)
  assume a: "\<forall>c \<in> set s. map_of codes [c] \<noteq> None"
  then have "find (\<lambda>c. map_of codes [c] = None) s = None"
    by (simp add: find_None_iff)
  then show "encode_string s codes = Inr (concat (map (\<lambda>c. the (map_of codes [c])) s))"
    by (simp add: encode_string_def encode_loop_char)
  show "length (concat (map (\<lambda>c. the (map_of codes [c])) s)) =
        (\<Sum>c\<leftarrow>s. length (the (map_of codes [c])))"
    by (simp add: length_concat comp_def)
next
  show "encode_string [] codes = Inr []" by (simp add: encode_string_def)
next
  assume a: "(\<forall>c \<in> set pre. map_of codes [c] \<noteq> None) \<and> map_of codes [x] = None"
  then have "find (\<lambda>c. map_of codes [c] = None) (pre @ x # post) = Some x"
    by (induction pre) auto
  then show "encode_string (pre @ x # post) codes = Inl (ValueError (SymbolNotInAlphabet x))"
    by (simp add: encode_string_def encode_loop_char)
qed

theorem C8_encode_witness:
  "encode_string ''abba'' [(''a'', ''0''), (''b'', ''10'')] = Inr ''010100'' \<and>
   length ''010100'' = length ''0'' + length ''10'' + length ''10'' + length ''0'' \<and>
   encode_string ''abxa'' [(''a'', ''0''), (''b'', ''10'')] =
     Inl (ValueError (SymbolNotInAlphabet CHR ''x''))"
  using C8_encode_concatenates_or_names_symbol[of "''abba''" "[(''a'', ''0''), (''b'', ''10'')]" "''ab''" "CHR ''x''" "''a''"]
  by simp

text \<open>
  The claim as stated fails on the position: the unknown character at index 0 and the
  same character at index 1 raise the same exception.
\<close>

theorem C8_error_carries_no_position:
  "encode_string ''xa'' [(''a'', ''0'')] = Inl (ValueError (SymbolNotInAlphabet CHR ''x'')) \<and>
   encode_string ''ax'' [(''a'', ''0'')] = Inl (ValueError (SymbolNotInAlphabet CHR ''x''))"
  by (simp add: encode_string_def)

subsection \<open>Decoder\<close>

lemma foldl_sm_step_Inl: "foldl (sm_step root_node) (Inl e) bits = Inl e"
  by (induction bits) (auto simp: sm_step_def)

lemma sm_step_Inr:
  "sm_step root_node (Inr (out, cur)) b =
     (if b \<noteq> CHR ''0'' \<and> b \<noteq> CHR ''1'' then Inl (ValueError (InvalidBit b))
      else
        (case (if b = CHR ''0'' then left cur else right cur) of
           None \<Rightarrow> Inl (ValueError MalformedTree)
         | Some n \<Rightarrow>
             (case symbol n of
                Some s \<Rightarrow> Inr (out @ s, root_node)
              | None \<Rightarrow> Inr (out, n))))"
  by (simp add: sm_step_def split: option.splits)

lemma decode_loop_sm:
  "decode_loop bits root_node out cur = foldl (sm_step root_node) (Inr (out, cur)) bits"
proof (induction bits arbitrary: out cur)
  case Nil
  then show ?case by simp
next
  case (Cons b bits)
  show ?case
    by (simp add: sm_step_Inr Cons.IH foldl_sm_step_Inl split: option.splits)
qed

lemma sm_run_InvalidBit:
  "foldl (sm_step root_node) st bits = Inl (ValueError (InvalidBit c)) \<Longrightarrow>
   set bits \<subseteq> {CHR ''0'', CHR ''1''} \<Longrightarrow> st = Inl (ValueError (InvalidBit c))"
proof (induction bits arbitrary: st)
  case Nil
  then show ?case by simp
next
  case (Cons b bits)
  from Cons.prems have b: "b = CHR ''0'' \<or> b = CHR ''1''" by simp
  from Cons.prems have "sm_step root_node st b = Inl (ValueError (InvalidBit c))"
    using Cons.IH by simp
  with b show ?case
    by (cases st) (auto simp: sm_step_Inr sm_step_def split: option.splits if_splits prod.splits)
qed

lemma sm_run_errors:
  "foldl (sm_step root_node) (Inr st0) bits = Inl e \<Longrightarrow>
     e = ValueError MalformedTree \<or> (\<exists>c. e = ValueError (InvalidBit c))"
proof (induction bits arbitrary: st0)
  case Nil
  then show ?case by simp
next
  case (Cons b bits)
  show ?case
  proof (cases "sm_step root_node (Inr st0) b")
    case (Inl e')
    with Cons.prems have "e = e'" by (simp add: foldl_sm_step_Inl)
    with Inl show ?thesis
      by (cases st0) (auto simp: sm_step_Inr split: option.splits if_splits)
  next
    case (Inr st1)
    with Cons.prems Cons.IH[of st1] show ?thesis by simp
  qed
qed

text \<open>
  The node the loop ends in is the root itself or lies strictly below it, hence is
  strictly smaller: comparing it with the root as a value decides the same as the
  identity comparison \<open>current_node != root\<close> of the code.
\<close>

lemma child_smaller:
  "left n = Some c \<or> right n = Some c \<Longrightarrow> size c < size n"
  by (cases n) auto

lemma decode_loop_final_node:
  "decode_loop bits root_node out cur = Inr (decoded, fin) \<Longrightarrow>
   cur = root_node \<or> size cur < size root_node \<Longrightarrow>
   fin = root_node \<or> size fin < size root_node"
proof (induction bits arbitrary: out cur)
  case Nil
  then show ?case by simp
next
  case (Cons b bits)
  let ?child = "if b = CHR ''0'' then left cur else right cur"
  from Cons.prems(1) obtain n where n: "?child = Some n"
    by (cases ?child) (auto split: if_splits)
  then have "size n < size cur" by (auto intro: child_smaller split: if_splits)
  with Cons.prems(2) have small: "size n < size root_node" by auto
  show ?case
  proof (cases "symbol n")
    case None
    with Cons.prems(1) n have "decode_loop bits root_node out n = Inr (decoded, fin)"
      by (auto split: if_splits)
    from Cons.IH[OF this] small show ?thesis by simp
  next
    case (Some s)
    with Cons.prems(1) n have "decode_loop bits root_node (out @ s) root_node = Inr (decoded, fin)"
      by (auto split: if_splits)
    from Cons.IH[OF this] show ?thesis by simp
  qed
qed

text \<open>
  C9. For a bitstring of \<open>0\<close> and \<open>1\<close> characters whose walk never leaves the tree,
  the state machine ends in a state \<open>(out, cur)\<close>, and \<open>decode_string\<close> fails with the
  incomplete-code \<open>ValueError\<close> exactly when \<open>cur\<close> is not the root; otherwise it returns
  \<open>out\<close>. The empty bitstring decodes to the empty sequence.
\<close>

theorem C9_decoder_terminal_condition:
  "(set bits \<subseteq> {CHR ''0'', CHR ''1''} \<and> sm_run root_node bits \<noteq> Inl (ValueError MalformedTree) \<longrightarrow>
     (\<exists>out cur. sm_run root_node bits = Inr (out, cur) \<and>
        decode_string bits root_node =
          (if cur \<noteq> root_node then Inl (ValueError IncompleteCode) else Inr out))) \<and>
   decode_string [] root_node = Inr []"
proof (intro conjI impI)
  assume a: "set bits \<subseteq> {CHR ''0'', CHR ''1''} \<and> sm_run root_node bits \<noteq> Inl (ValueError MalformedTree)"
  show "\<exists>out cur. sm_run root_node bits = Inr (out, cur) \<and>
        decode_string bits root_node =
          (if cur \<noteq> root_node then Inl (ValueError IncompleteCode) else Inr out)"
  proof (cases "sm_run root_node bits")
    case (Inl e)
    then have "e = ValueError MalformedTree \<or> (\<exists>c. e = ValueError (InvalidBit c))"
      unfolding sm_run_def by (rule sm_run_errors)
    with a Inl obtain c where "sm_run root_node bits = Inl (ValueError (InvalidBit c))" by auto
    with a have False
      unfolding sm_run_def by (auto dest: sm_run_InvalidBit)
    then show ?thesis ..
  next
    case (Inr st)
    obtain out cur where "st = (out, cur)" by (cases st)
    with Inr show ?thesis
      by (simp add: decode_string_def decode_loop_sm sm_run_def)
  qed
next
  show "decode_string [] root_node = Inr []" by (simp add: decode_string_def)
qed

theorem C9_decoder_witness:
  "decode_string ''0100'' (HuffmanNode None (4::real) (Some (HuffmanNode (Some ''a'') 2 None None))
      (Some (HuffmanNode None 2 (Some (HuffmanNode (Some ''b'') 1 None None))
          (Some (HuffmanNode (Some ''c'') 1 None None))))) = Inr ''aba'' \<and>
   decode_string ''01'' (HuffmanNode None (4::real) (Some (HuffmanNode (Some ''a'') 2 None None))
      (Some (HuffmanNode None 2 (Some (HuffmanNode (Some ''b'') 1 None None))
          (Some (HuffmanNode (Some ''c'') 1 None None))))) = Inl (ValueError IncompleteCode)"
  using C9_decoder_terminal_condition[of "''0100''" "HuffmanNode None (4::real) (Some (HuffmanNode (Some ''a'') 2 None None))
      (Some (HuffmanNode None 2 (Some (HuffmanNode (Some ''b'') 1 None None))
          (Some (HuffmanNode (Some ''c'') 1 None None))))"]
    C9_decoder_terminal_condition[of "''01''" "HuffmanNode None (4::real) (Some (HuffmanNode (Some ''a'') 2 None None))
      (Some (HuffmanNode None 2 (Some (HuffmanNode (Some ''b'') 1 None None))
          (Some (HuffmanNode (Some ''c'') 1 None None))))"]
  by (simp add: sm_run_def sm_step_Inr)

subsection \<open>Metrics\<close>

lemma average_loop_char:
  "average_loop codes probs es acc =
     (case find (\<lambda>s. map_of codes s = None) (map snd es) of
        Some k \<Rightarrow> Inl (KeyError k)
      | None \<Rightarrow> Inr (acc + (\<Sum>(i, s)\<leftarrow>es. probs ! i * real (length (the (map_of codes s))))))"
  by (induction es arbitrary: acc) (auto split: option.splits)

text \<open>
  C10. With lists of equal length, a symbol without an entry in \<open>codes\<close> makes
  \<open>calculate_average_length\<close> raise \<open>KeyError\<close> (for the first such symbol), not a
  \<open>ValueError\<close>; the only \<open>ValueError\<close> it raises is the count mismatch.
\<close>

theorem C10_missing_code_is_KeyError:
  "(length symbols = length probs \<and> s \<in> set symbols \<and> map_of codes s = None \<longrightarrow>
      (\<exists>k. k \<in> set symbols \<and> map_of codes k = None \<and>
           calculate_average_length codes symbols probs = Inl (KeyError k))) \<and>
   (calculate_average_length codes symbols probs = Inl (ValueError m) \<longleftrightarrow>
      length symbols \<noteq> length probs \<and> m = CountMismatch)"
proof (intro conjI impI)
  assume a: "length symbols = length probs \<and> s \<in> set symbols \<and> map_of codes s = None"
  then obtain k where k: "find (\<lambda>s. map_of codes s = None) symbols = Some k"
    by (cases "find (\<lambda>s. map_of codes s = None) symbols") (auto simp: find_None_iff)
  then have "k \<in> set symbols \<and> map_of codes k = None"
    by (auto simp: find_Some_iff)
  moreover have "calculate_average_length codes symbols probs = Inl (KeyError k)"
    using a k by (simp add: calculate_average_length_def average_loop_char)
  ultimately show "\<exists>k. k \<in> set symbols \<and> map_of codes k = None \<and>
           calculate_average_length codes symbols probs = Inl (KeyError k)" by blast
next
  show "calculate_average_length codes symbols probs = Inl (ValueError m) \<longleftrightarrow>
      length symbols \<noteq> length probs \<and> m = CountMismatch"
    by (auto simp: calculate_average_length_def average_loop_char split: option.splits)
qed

theorem C10_missing_code_witness:
  "calculate_average_length [(''a'', ''0'')] [''a'', ''b''] [1 / 2, 1 / 2] = Inl (KeyError ''b'')"
  using C10_missing_code_is_KeyError[of "[''a'', ''b'']" "[1 / 2, 1 / 2]" "''b''" "[(''a'', ''0'')]" CountMismatch]
  by auto

lemma bit_length_le: "n < 2 ^ k \<Longrightarrow> bit_length n \<le> k"
proof (induction n arbitrary: k rule: bit_length.induct)
  case (1 n)
  show ?case
  proof (cases "n = 0")
    case True
    then show ?thesis by (simp add: bit_length.simps)
  next
    case False
    with 1(2) obtain j where k: "k = Suc j" by (cases k) auto
    with 1(2) have "n div 2 < 2 ^ j" by auto
    from 1(1)[OF False this] show ?thesis
      using False k by (subst bit_length.simps) simp
  qed
qed

lemma round_double_exact:
  assumes "M < 2 ^ 53" and "dval M e < 2 powi 1024"
  shows "round_double M e = Finite M e"
proof -
  from bit_length_le[OF assms(1)] have "bit_length M - 53 = 0" by simp
  with assms(2) show ?thesis by (simp add: round_double_def)
qed





text \<open>
  The running sum is rounded: after two codewords of length 1 the sum is \<open>1.0\<close>, and
  adding the term of a codeword of length 60 leaves it at \<open>1.0\<close>. The term of a
  codeword of 1075 digits is \<open>0.0\<close>.
\<close>

lemma kraft_sum_rounds:
  "check_kraft_inequality [(''a'', ''0''), (''b'', ''1''),
     (''c'', ''000000000000000000000000000000000000000000000000000000000000'')] =
     (True, Finite 4503599627370496 (- 52))"
proof -
  have b: "bit_length 1152921504606846977 = 61"
    by (simp add: bit_length.simps)
  have "round_double 1152921504606846977 (- 60) = Finite 4503599627370496 (- 52)"
    by (simp add: round_double_def b dval_def Let_def)
  then show ?thesis
    by (simp add: check_kraft_inequality_def pow2_neg_def round_double_exact dval_def)
qed

lemma kraft_term_underflows: "pow2_neg 1075 = Finite 0 0"
  by (simp add: pow2_neg_def)




subsection \<open>Codewords are root-to-leaf paths\<close>

lemma traverse_fold:
  "traverse t pre codes = fold (\<lambda>(k, v). AList.update k v) (leaf_paths t pre) codes"
  by (induction t pre codes rule: traverse.induct) (auto split: option.splits)

lemma fold_update_keys:
  "fst ` set (fold (\<lambda>(k, v). AList.update k v) kvs cs) = fst ` set kvs \<union> fst ` set cs"
proof (induction kvs arbitrary: cs)
  case Nil
  then show ?case by simp
next
  case (Cons kv kvs)
  obtain k v where kv: "kv = (k, v)" by (cases kv)
  have "fst ` set (fold (\<lambda>(k, v). AList.update k v) kvs (AList.update k v cs)) =
        fst ` set kvs \<union> fst ` set (AList.update k v cs)"
    by (rule Cons.IH)
  then show ?case by (simp add: kv dom_update Un_ac)
qed

lemma fold_update_distinct:
  "distinct (map fst cs) \<Longrightarrow> distinct (map fst (fold (\<lambda>(k, v). AList.update k v) kvs cs))"
  by (induction kvs arbitrary: cs) (auto simp: distinct_update)

lemma update_set_subset: "set (AList.update k v al) \<subseteq> insert (k, v) (set al)"
  by (induction al) auto

lemma fold_update_subset:
  "set (fold (\<lambda>(k, v). AList.update k v) kvs cs) \<subseteq> set kvs \<union> set cs"
proof (induction kvs arbitrary: cs)
  case Nil
  then show ?case by simp
next
  case (Cons kv kvs)
  obtain k v where kv: "kv = (k, v)" by (cases kv)
  have "set (fold (\<lambda>(k, v). AList.update k v) kvs (AList.update k v cs))
          \<subseteq> set kvs \<union> set (AList.update k v cs)"
    by (rule Cons.IH)
  with update_set_subset[of k v cs] show ?case by (auto simp: kv)
qed

lemma leaf_paths_append:
  "leaf_paths t (pre @ q) = map (\<lambda>(k, c). (k, pre @ c)) (leaf_paths t q)"
  by (induction t q arbitrary: pre rule: leaf_paths.induct)
     (auto split: option.splits simp flip: append_assoc)

lemma leaf_paths_pre:
  "leaf_paths t pre = map (\<lambda>(k, c). (k, pre @ c)) (leaf_paths t [])"
  using leaf_paths_append[of t pre "[]"] by simp

lemma leaf_paths_internal:
  "symbol n = None \<Longrightarrow>
   leaf_paths (Some n) [] =
     map (\<lambda>(k, c). (k, CHR ''0'' # c)) (leaf_paths (left n) []) @
     map (\<lambda>(k, c). (k, CHR ''1'' # c)) (leaf_paths (right n) [])"
  using leaf_paths_pre[of "left n" "''0''"] leaf_paths_pre[of "right n" "''1''"]
  by (cases n) simp

lemma leaf_paths_leaf:
  "symbol n = Some s \<Longrightarrow> leaf_paths (Some n) [] = [(s, [])]"
  by (cases n) simp

text \<open>A path that extends another one leads to the same node.\<close>

lemma leaf_paths_prefix:
  "(k1, c1) \<in> set (leaf_paths t []) \<Longrightarrow> (k2, c2) \<in> set (leaf_paths t []) \<Longrightarrow>
   prefix c1 c2 \<Longrightarrow> k1 = k2 \<and> c1 = c2"
proof (induction c1 arbitrary: t k2 c2)
  case Nil
  from Nil.prems(1) obtain n where t: "t = Some n" by (cases t) auto
  show ?case
  proof (cases "symbol n")
    case None
    with Nil.prems(1) show ?thesis by (auto simp: t leaf_paths_internal)
  next
    case (Some s)
    with Nil.prems show ?thesis by (simp add: t leaf_paths_leaf)
  qed
next
  case (Cons b c1)
  from Cons.prems(1) obtain n where t: "t = Some n" by (cases t) auto
  from Cons.prems(3) obtain c2' where c2: "c2 = b # c2'" and pre: "prefix c1 c2'"
    by (cases c2) auto
  show ?case
  proof (cases "symbol n")
    case (Some s)
    with Cons.prems(1) show ?thesis by (simp add: t leaf_paths_leaf)
  next
    case None
    show ?thesis
    proof (cases "b = CHR ''0''")
      case True
      from Cons.prems(1,2) have "(k1, c1) \<in> set (leaf_paths (left n) [])"
        and "(k2, c2') \<in> set (leaf_paths (left n) [])"
        by (auto simp: t c2 True leaf_paths_internal[OF None])
      from Cons.IH[OF this pre] show ?thesis by (simp add: c2)
    next
      case False
      from Cons.prems(1,2) have "(k1, c1) \<in> set (leaf_paths (right n) [])"
        and "(k2, c2') \<in> set (leaf_paths (right n) [])"
        using False by (auto simp: t c2 leaf_paths_internal[OF None])
      from Cons.IH[OF this pre] show ?thesis by (simp add: c2)
    qed
  qed
qed

lemma leaf_paths_bits:
  "(k, c) \<in> set (leaf_paths t pre) \<Longrightarrow> set c \<subseteq> set pre \<union> {CHR ''0'', CHR ''1''}"
  by (induction t pre rule: leaf_paths.induct) (auto split: option.splits)


text \<open>Walking a root-to-leaf path from an internal node emits the leaf's symbol.\<close>

lemma decode_loop_path:
  "symbol cur = None \<Longrightarrow> (k, c) \<in> set (leaf_paths (Some cur) []) \<Longrightarrow>
   decode_loop (c @ rest) root_node out cur = decode_loop rest root_node (out @ k) root_node"
proof (induction c arbitrary: cur)
  case Nil
  then show ?case by (auto simp: leaf_paths_internal)
next
  case (Cons b c)
  let ?child = "if b = CHR ''0'' then left cur else right cur"
  from Cons.prems have b: "b = CHR ''0'' \<or> b = CHR ''1''"
    and ch: "(k, c) \<in> set (leaf_paths ?child [])"
    by (auto simp: leaf_paths_internal)
  from ch obtain n where n: "?child = Some n" by (cases ?child) auto
  show ?case
  proof (cases "symbol n")
    case (Some s)
    with ch n have "k = s" "c = []" by (simp_all add: leaf_paths_leaf)
    with b n Some show ?thesis by auto
  next
    case None
    from Cons.IH[OF None] ch n
    have "decode_loop (c @ rest) root_node out n = decode_loop rest root_node (out @ k) root_node"
      by simp
    with b n None show ?thesis by auto
  qed
qed

lemma table_in_paths:
  "(k, c) \<in> set (traverse t [] []) \<Longrightarrow> (k, c) \<in> set (leaf_paths t [])"
  using fold_update_subset[of "leaf_paths t []" "[]"] by (auto simp: traverse_fold)

lemma table_keys: "fst ` set (traverse t [] []) = fst ` set (leaf_paths t [])"
  by (simp add: traverse_fold fold_update_keys)

lemma table_distinct: "distinct (map fst (traverse t [] []))"
  by (simp add: traverse_fold fold_update_distinct)

lemma encode_loop_table:
  "\<forall>ch \<in> set s. map_of codes [ch] \<noteq> None \<Longrightarrow>
   encode_loop s codes acc = Inr (acc @ concat (map (\<lambda>ch. the (map_of codes [ch])) s))"
  by (induction s arbitrary: acc) (auto split: option.splits)

lemma decode_loop_codes:
  "symbol root_node = None \<Longrightarrow>
   \<forall>ch \<in> set s. ([ch], code ch) \<in> set (leaf_paths (Some root_node) []) \<Longrightarrow>
   decode_loop (concat (map code s)) root_node out root_node = Inr (out @ s, root_node)"
proof (induction s arbitrary: out)
  case Nil
  then show ?case by simp
next
  case (Cons ch s)
  from Cons.prems have "([ch], code ch) \<in> set (leaf_paths (Some root_node) [])" by simp
  from decode_loop_path[OF Cons.prems(1) this]
  have "decode_loop (code ch @ concat (map code s)) root_node out root_node =
        decode_loop (concat (map code s)) root_node (out @ [ch]) root_node" .
  with Cons.IH[of "out @ [ch]"] Cons.prems show ?case by simp
qed

lemma roundtrip_internal_root:
  assumes "symbol root_node = None"
    and "\<forall>ch \<in> set s. [ch] \<in> fst ` set (traverse (Some root_node) [] [])"
  shows "\<exists>bits. encode_string s (traverse (Some root_node) [] []) = Inr bits \<and>
          decode_string bits root_node = Inr s"
proof -
  let ?table = "traverse (Some root_node) [] []"
  let ?code = "\<lambda>ch. the (map_of ?table [ch])"
  have some: "\<forall>ch \<in> set s. map_of ?table [ch] \<noteq> None"
    using assms(2) by (auto simp: map_of_eq_None_iff)
  then have enc: "encode_string s ?table = Inr (concat (map ?code s))"
    by (simp add: encode_string_def encode_loop_table)
  have "\<forall>ch \<in> set s. ([ch], ?code ch) \<in> set (leaf_paths (Some root_node) [])"
  proof
    fix ch assume "ch \<in> set s"
    with some obtain c where "map_of ?table [ch] = Some c" by auto
    then have "([ch], c) \<in> set ?table" "?code ch = c" by (auto dest: map_of_SomeD)
    then show "([ch], ?code ch) \<in> set (leaf_paths (Some root_node) [])"
      by (auto dest: table_in_paths)
  qed
  from decode_loop_codes[OF assms(1) this, of "[]"]
  have "decode_string (concat (map ?code s)) root_node = Inr s"
    by (simp add: decode_string_def)
  with enc show ?thesis by blast
qed

subsection \<open>What the builder returns\<close>

lemma leaf_paths_keys_pre: "fst ` set (leaf_paths t pre) = fst ` set (leaf_paths t [])"
  by (subst leaf_paths_pre) force

lemma parent_symbols:
  "fst ` set (leaf_paths (Some (HuffmanNode None p (Some l) (Some r))) []) =
   fst ` set (leaf_paths (Some l) []) \<union> fst ` set (leaf_paths (Some r) [])"
  using leaf_paths_keys_pre[of "Some l" "''0''"] leaf_paths_keys_pre[of "Some r" "''1''"]
  by (simp add: image_Un)

lemma merge_loop_symbols: "forest_symbols (merge_loop nodes) = forest_symbols nodes"
proof (induction nodes rule: merge_loop.induct)
  case (1 nodes)
  show ?case
  proof (cases "1 < length nodes")
    case False
    then show ?thesis by (simp add: merge_loop_stop)
  next
    case True
    then obtain l r rest where s: "sort_key prob nodes = l # r # rest"
      by (rule sorted_two_or_more)
    let ?p = "HuffmanNode None (prob l + prob r) (Some l) (Some r)"
    have "forest_symbols (merge_loop (rest @ [?p])) = forest_symbols (rest @ [?p])"
      using 1[OF True s refl] .
    also have "\<dots> = forest_symbols (l # r # rest)"
      unfolding forest_symbols_def using parent_symbols[of "prob l + prob r" l r]
      by (auto simp del: leaf_paths.simps)
    also have "\<dots> = forest_symbols nodes"
      using arg_cong[OF s, of set] by (simp add: forest_symbols_def)
    finally show ?thesis by (simp add: merge_loop_step[OF True s])
  qed
qed

lemma merge_loop_root_internal:
  "1 < length nodes \<Longrightarrow> merge_loop nodes = [n] \<Longrightarrow> symbol n = None"
proof (induction nodes rule: merge_loop.induct)
  case (1 nodes)
  from 1(2) obtain l r rest where s: "sort_key prob nodes = l # r # rest"
    by (rule sorted_two_or_more)
  let ?p = "HuffmanNode None (prob l + prob r) (Some l) (Some r)"
  from 1(3) have m: "merge_loop (rest @ [?p]) = [n]"
    by (simp add: merge_loop_step[OF 1(2) s])
  show ?case
  proof (cases "rest = []")
    case True
    with m show ?thesis by (auto simp: merge_loop_stop)
  next
    case False
    then have "1 < length (rest @ [?p])" by (cases rest) auto
    from 1(1)[OF 1(2) s refl this m] show ?thesis .
  qed
qed

lemma initial_symbols:
  "length symbols = length probs \<Longrightarrow>
   forest_symbols (map (\<lambda>i. init_node (Some (symbols ! i)) (probs ! i)) [0..<length symbols])
     = set symbols"
  by (auto simp: forest_symbols_def init_node_def set_conv_nth)

text \<open>What the builder returns for a non-empty alphabet.\<close>

lemma build_nonempty:
  assumes "length symbols = length probs" and "symbols \<noteq> []"
  obtains t where "build_huffman_tree symbols probs = Inr (Some t)"
    and "fst ` set (leaf_paths (Some t) []) = set symbols"
    and "2 \<le> length symbols \<Longrightarrow> symbol t = None"
    and "length symbols = 1 \<Longrightarrow> t = init_node (Some (hd symbols)) (hd probs)"
proof -
  let ?nodes = "map (\<lambda>i. init_node (Some (symbols ! i)) (probs ! i)) [0..<length symbols]"
  from assms(2) have ne: "?nodes \<noteq> []" by simp
  from merge_loop_single[OF ne] obtain t where t: "merge_loop ?nodes = [t]" by blast
  have b: "build_huffman_tree symbols probs = Inr (Some t)"
    using assms(1) t by (simp add: build_huffman_tree_def)
  have "forest_symbols [t] = set symbols"
    using merge_loop_symbols[of ?nodes] initial_symbols[OF assms(1)] t by simp
  then have k: "fst ` set (leaf_paths (Some t) []) = set symbols"
    by (simp add: forest_symbols_def)
  have i: "symbol t = None" if "2 \<le> length symbols"
  proof -
    from that have "1 < length ?nodes" by simp
    from merge_loop_root_internal[OF this t] show ?thesis .
  qed
  have o: "t = init_node (Some (hd symbols)) (hd probs)" if "length symbols = 1"
  proof -
    from that assms(1) obtain s p where "symbols = [s]" "probs = [p]"
      by (cases symbols; cases probs) auto
    with t show ?thesis by (simp add: merge_loop_stop)
  qed
  from b k i o show thesis by (rule that)
qed

text \<open>The worked example used below: three symbols with weights 2, 1, 1.\<close>

lemma example_tree:
  "build_huffman_tree [''A'', ''B'', ''C''] [2, 1, 1 :: real] =
     Inr (Some (HuffmanNode None 4
       (Some (HuffmanNode (Some ''A'') 2 None None))
       (Some (HuffmanNode None 2
          (Some (HuffmanNode (Some ''B'') 1 None None))
          (Some (HuffmanNode (Some ''C'') 1 None None))))))"
  by (simp add: build_huffman_tree_def merge_loop.simps init_node_def upt_rec)

lemma example_table:
  "generate_huffman_codes (Some (HuffmanNode None (4 :: real)
       (Some (HuffmanNode (Some ''A'') 2 None None))
       (Some (HuffmanNode None 2
          (Some (HuffmanNode (Some ''B'') 1 None None))
          (Some (HuffmanNode (Some ''C'') 1 None None)))))) =
     Inr [(''A'', ''0''), (''B'', ''10''), (''C'', ''11'')]"
  by (simp add: generate_huffman_codes_def)

text \<open>
  C2. For an alphabet of at least two symbols (with as many weights) the builder returns
  a tree, the generator returns its table, and no codeword of the table is a prefix of
  the codeword of another entry.
\<close>

theorem C2_codewords_prefix_free:
  "length symbols = length probs \<and> 2 \<le> length symbols \<longrightarrow>
   (\<exists>t table. build_huffman_tree symbols probs = Inr (Some t) \<and>
      generate_huffman_codes (Some t) = Inr table \<and>
      (\<forall>i < length table. \<forall>j < length table.
          i \<noteq> j \<longrightarrow> \<not> prefix (snd (table ! i)) (snd (table ! j))))"
proof
  assume a: "length symbols = length probs \<and> 2 \<le> length symbols"
  then have len: "length symbols = length probs" and ne: "symbols \<noteq> []" by auto
  obtain t where b: "build_huffman_tree symbols probs = Inr (Some t)"
    by (rule build_nonempty[OF len ne])
  let ?table = "traverse (Some t) [] []"
  have g: "generate_huffman_codes (Some t) = Inr ?table"
    by (simp add: generate_huffman_codes_def)
  have "\<not> prefix (snd (?table ! i)) (snd (?table ! j))"
    if "i < length ?table" "j < length ?table" "i \<noteq> j" for i j
  proof
    assume p: "prefix (snd (?table ! i)) (snd (?table ! j))"
    from that have "?table ! i \<in> set ?table" "?table ! j \<in> set ?table" by simp_all
    then have "(fst (?table ! i), snd (?table ! i)) \<in> set (leaf_paths (Some t) [])"
      "(fst (?table ! j), snd (?table ! j)) \<in> set (leaf_paths (Some t) [])"
      using table_in_paths[of "fst (?table ! i)" "snd (?table ! i)" "Some t"]
        table_in_paths[of "fst (?table ! j)" "snd (?table ! j)" "Some t"]
      by simp_all
    from leaf_paths_prefix[OF this p] have e: "fst (?table ! i) = fst (?table ! j)"
      by simp
    have "(map fst ?table ! i = map fst ?table ! j) = (i = j)"
      using that by (intro nth_eq_iff_index_eq table_distinct) simp_all
    with e that show False by simp
  qed
  with b g show "\<exists>t table. build_huffman_tree symbols probs = Inr (Some t) \<and>
      generate_huffman_codes (Some t) = Inr table \<and>
      (\<forall>i < length table. \<forall>j < length table.
          i \<noteq> j \<longrightarrow> \<not> prefix (snd (table ! i)) (snd (table ! j)))"
    by blast
qed

theorem C2_prefix_free_witness:
  "build_huffman_tree [''A'', ''B'', ''C''] [2, 1, 1 :: real] =
     Inr (Some (HuffmanNode None 4
       (Some (HuffmanNode (Some ''A'') 2 None None))
       (Some (HuffmanNode None 2
          (Some (HuffmanNode (Some ''B'') 1 None None))
          (Some (HuffmanNode (Some ''C'') 1 None None)))))) \<and>
   generate_huffman_codes (Some (HuffmanNode None (4 :: real)
       (Some (HuffmanNode (Some ''A'') 2 None None))
       (Some (HuffmanNode None 2
          (Some (HuffmanNode (Some ''B'') 1 None None))
          (Some (HuffmanNode (Some ''C'') 1 None None)))))) =
     Inr [(''A'', ''0''), (''B'', ''10''), (''C'', ''11'')] \<and>
   \<not> prefix (snd ([(''A'', ''0''), (''B'', ''10''), (''C'', ''11'')] ! 1))
       (snd ([(''A'', ''0''), (''B'', ''10''), (''C'', ''11'')] ! 2))"
proof -
  from C2_codewords_prefix_free[of "[''A'', ''B'', ''C'']" "[2, 1, 1 :: real]"]
  obtain t table where
    b: "build_huffman_tree [''A'', ''B'', ''C''] [2, 1, 1 :: real] = Inr (Some t)" and
    g: "generate_huffman_codes (Some t) = Inr table" and
    p: "\<forall>i < length table. \<forall>j < length table.
          i \<noteq> j \<longrightarrow> \<not> prefix (snd (table ! i)) (snd (table ! j))"
    by auto
  from b have "t = HuffmanNode None 4
       (Some (HuffmanNode (Some ''A'') 2 None None))
       (Some (HuffmanNode None 2
          (Some (HuffmanNode (Some ''B'') 1 None None))
          (Some (HuffmanNode (Some ''C'') 1 None None))))"
    by (simp add: example_tree)
  with g have "table = [(''A'', ''0''), (''B'', ''10''), (''C'', ''11'')]"
    by (simp add: example_table)
  with p have "\<not> prefix (snd ([(''A'', ''0''), (''B'', ''10''), (''C'', ''11'')] ! 1))
       (snd ([(''A'', ''0''), (''B'', ''10''), (''C'', ''11'')] ! 2))"
    by (auto simp del: nth_Cons_Suc nth_Cons_numeral)
  with example_tree example_table show ?thesis by blast
qed

text \<open>
  C6, as amended. For a non-empty alphabet the table has pairwise different keys, its
  keys are exactly the input symbols (one entry for each distinct symbol), and every
  codeword is a sequence of the characters \<open>0\<close> and \<open>1\<close>, non-empty when the alphabet
  has at least two symbols. For a single-symbol alphabet the tree is the lone leaf and
  the table maps the symbol to the empty sequence.
\<close>

theorem C6_table_entries:
  "length symbols = length probs \<and> symbols \<noteq> [] \<longrightarrow>
   (\<exists>t table. build_huffman_tree symbols probs = Inr (Some t) \<and>
      generate_huffman_codes (Some t) = Inr table \<and>
      distinct (map fst table) \<and> set (map fst table) = set symbols \<and>
      (\<forall>c \<in> snd ` set table.
          set c \<subseteq> {CHR ''0'', CHR ''1''} \<and> (2 \<le> length symbols \<longrightarrow> c \<noteq> [])) \<and>
      (length symbols = 1 \<longrightarrow> table = [(hd symbols, [])]))"
proof
  assume a: "length symbols = length probs \<and> symbols \<noteq> []"
  then have len: "length symbols = length probs" and ne: "symbols \<noteq> []" by auto
  obtain t where b: "build_huffman_tree symbols probs = Inr (Some t)"
    and k: "fst ` set (leaf_paths (Some t) []) = set symbols"
    and i: "2 \<le> length symbols \<Longrightarrow> symbol t = None"
    and o: "length symbols = 1 \<Longrightarrow> t = init_node (Some (hd symbols)) (hd probs)"
    by (rule build_nonempty[OF len ne]) blast
  let ?table = "traverse (Some t) [] []"
  have g: "generate_huffman_codes (Some t) = Inr ?table"
    by (simp add: generate_huffman_codes_def)
  have keys: "set (map fst ?table) = set symbols"
    using k by (simp add: table_keys)
  have bits: "set c \<subseteq> {CHR ''0'', CHR ''1''} \<and> (2 \<le> length symbols \<longrightarrow> c \<noteq> [])"
    if "c \<in> snd ` set ?table" for c
  proof -
    from that obtain s where "(s, c) \<in> set ?table" by auto
    then have m: "(s, c) \<in> set (leaf_paths (Some t) [])" by (rule table_in_paths)
    from leaf_paths_bits[OF m] have "set c \<subseteq> {CHR ''0'', CHR ''1''}" by simp
    moreover have "c \<noteq> []" if "2 \<le> length symbols"
      using m leaf_paths_internal[OF i[OF that]] by auto
    ultimately show ?thesis by blast
  qed
  have one: "?table = [(hd symbols, [])]" if "length symbols = 1"
    using o[OF that] by (simp add: init_node_def)
  from b g keys bits one table_distinct[of "Some t"]
  show "\<exists>t table. build_huffman_tree symbols probs = Inr (Some t) \<and>
      generate_huffman_codes (Some t) = Inr table \<and>
      distinct (map fst table) \<and> set (map fst table) = set symbols \<and>
      (\<forall>c \<in> snd ` set table.
          set c \<subseteq> {CHR ''0'', CHR ''1''} \<and> (2 \<le> length symbols \<longrightarrow> c \<noteq> [])) \<and>
      (length symbols = 1 \<longrightarrow> table = [(hd symbols, [])])"
    by blast
qed

theorem C6_table_witness:
  "build_huffman_tree [''A'', ''B'', ''C''] [2, 1, 1 :: real] =
     Inr (Some (HuffmanNode None 4
       (Some (HuffmanNode (Some ''A'') 2 None None))
       (Some (HuffmanNode None 2
          (Some (HuffmanNode (Some ''B'') 1 None None))
          (Some (HuffmanNode (Some ''C'') 1 None None)))))) \<and>
   generate_huffman_codes (Some (HuffmanNode None (4 :: real)
       (Some (HuffmanNode (Some ''A'') 2 None None))
       (Some (HuffmanNode None 2
          (Some (HuffmanNode (Some ''B'') 1 None None))
          (Some (HuffmanNode (Some ''C'') 1 None None)))))) =
     Inr [(''A'', ''0''), (''B'', ''10''), (''C'', ''11'')] \<and>
   distinct (map fst [(''A'', ''0''), (''B'', ''10''), (''C'', ''11'')]) \<and>
   set (map fst [(''A'', ''0''), (''B'', ''10''), (''C'', ''11'')]) = set [''A'', ''B'', ''C'']"
proof -
  from C6_table_entries[of "[''A'', ''B'', ''C'']" "[2, 1, 1 :: real]"]
  obtain t table where
    b: "build_huffman_tree [''A'', ''B'', ''C''] [2, 1, 1 :: real] = Inr (Some t)" and
    g: "generate_huffman_codes (Some t) = Inr table" and
    k: "distinct (map fst table)" "set (map fst table) = set [''A'', ''B'', ''C'']"
    by auto
  from b have "t = HuffmanNode None 4
       (Some (HuffmanNode (Some ''A'') 2 None None))
       (Some (HuffmanNode None 2
          (Some (HuffmanNode (Some ''B'') 1 None None))
          (Some (HuffmanNode (Some ''C'') 1 None None))))"
    by (simp add: example_tree)
  with g have "table = [(''A'', ''0''), (''B'', ''10''), (''C'', ''11'')]"
    by (simp add: example_table)
  with k example_tree example_table show ?thesis by blast
qed

text \<open>The claim as stated fails: the codeword of a single-symbol alphabet is empty.\<close>

theorem C6_single_symbol_empty_codeword:
  "build_huffman_tree [''a''] [1 :: real] = Inr (Some (HuffmanNode (Some ''a'') 1 None None)) \<and>
   generate_huffman_codes (Some (HuffmanNode (Some ''a'') (1 :: real) None None)) =
     Inr [(''a'', [])]"
  by (simp add: build_huffman_tree_def merge_loop.simps init_node_def
      generate_huffman_codes_def)

text \<open>
  The encoder looks up one character at a time, so a symbol of several characters has a
  codeword that no input can use: the input is a string, and its symbols are its
  characters.
\<close>

lemma multi_character_symbol_not_encodable:
  "build_huffman_tree [''ab'', ''c''] [1, 1 :: real] =
     Inr (Some (HuffmanNode None 2
       (Some (HuffmanNode (Some ''ab'') 1 None None))
       (Some (HuffmanNode (Some ''c'') 1 None None)))) \<and>
   generate_huffman_codes (Some (HuffmanNode None (2 :: real)
       (Some (HuffmanNode (Some ''ab'') 1 None None))
       (Some (HuffmanNode (Some ''c'') 1 None None)))) =
     Inr [(''ab'', ''0''), (''c'', ''1'')] \<and>
   encode_string ''ab'' [(''ab'', ''0''), (''c'', ''1'')] =
     Inl (ValueError (SymbolNotInAlphabet CHR ''a''))"
  by (simp add: build_huffman_tree_def merge_loop.simps init_node_def upt_rec
      generate_huffman_codes_def encode_string_def)

text \<open>
  C1, as amended. For an alphabet of at least two symbols (with as many weights) and
  every input all of whose characters are symbols of the alphabet, the builder returns
  a tree, the generator its table, the encoder a bitstring, and decoding that bitstring
  with the tree gives the input back.
\<close>

theorem C1_roundtrip_two_or_more_symbols:
  "length symbols = length probs \<and> 2 \<le> length symbols \<and> (\<forall>ch \<in> set s. [ch] \<in> set symbols) \<longrightarrow>
   (\<exists>t table bits. build_huffman_tree symbols probs = Inr (Some t) \<and>
      generate_huffman_codes (Some t) = Inr table \<and>
      encode_string s table = Inr bits \<and>
      decode_string bits t = Inr s)"
proof
  assume a: "length symbols = length probs \<and> 2 \<le> length symbols \<and> (\<forall>ch \<in> set s. [ch] \<in> set symbols)"
  then have len: "length symbols = length probs" and ne: "symbols \<noteq> []"
    and two: "2 \<le> length symbols" by auto
  obtain t where b: "build_huffman_tree symbols probs = Inr (Some t)"
    and k: "fst ` set (leaf_paths (Some t) []) = set symbols"
    and i0: "2 \<le> length symbols \<Longrightarrow> symbol t = None"
    by (rule build_nonempty[OF len ne]) blast
  from i0[OF two] have i: "symbol t = None" .
  let ?table = "traverse (Some t) [] []"
  have g: "generate_huffman_codes (Some t) = Inr ?table"
    by (simp add: generate_huffman_codes_def)
  have "\<forall>ch \<in> set s. [ch] \<in> fst ` set ?table"
    using a k by (simp add: table_keys)
  from roundtrip_internal_root[OF i this] b g
  show "\<exists>t table bits. build_huffman_tree symbols probs = Inr (Some t) \<and>
      generate_huffman_codes (Some t) = Inr table \<and>
      encode_string s table = Inr bits \<and>
      decode_string bits t = Inr s"
    by blast
qed

theorem C1_roundtrip_witness:
  "build_huffman_tree [''A'', ''B'', ''C''] [2, 1, 1 :: real] =
     Inr (Some (HuffmanNode None 4
       (Some (HuffmanNode (Some ''A'') 2 None None))
       (Some (HuffmanNode None 2
          (Some (HuffmanNode (Some ''B'') 1 None None))
          (Some (HuffmanNode (Some ''C'') 1 None None)))))) \<and>
   encode_string ''CAB'' [(''A'', ''0''), (''B'', ''10''), (''C'', ''11'')] = Inr ''11010'' \<and>
   decode_string ''11010'' (HuffmanNode None (4 :: real)
       (Some (HuffmanNode (Some ''A'') 2 None None))
       (Some (HuffmanNode None 2
          (Some (HuffmanNode (Some ''B'') 1 None None))
          (Some (HuffmanNode (Some ''C'') 1 None None))))) = Inr ''CAB''"
proof -
  from C1_roundtrip_two_or_more_symbols[of "[''A'', ''B'', ''C'']" "[2, 1, 1 :: real]" "''CAB''"]
  obtain t table bits where
    b: "build_huffman_tree [''A'', ''B'', ''C''] [2, 1, 1 :: real] = Inr (Some t)" and
    g: "generate_huffman_codes (Some t) = Inr table" and
    e: "encode_string ''CAB'' table = Inr bits" and
    d: "decode_string bits t = Inr ''CAB''"
    by auto
  from b have t: "t = HuffmanNode None 4
       (Some (HuffmanNode (Some ''A'') 2 None None))
       (Some (HuffmanNode None 2
          (Some (HuffmanNode (Some ''B'') 1 None None))
          (Some (HuffmanNode (Some ''C'') 1 None None))))"
    by (simp add: example_tree)
  with g have tb: "table = [(''A'', ''0''), (''B'', ''10''), (''C'', ''11'')]"
    by (simp add: example_table)
  have enc: "encode_string ''CAB'' [(''A'', ''0''), (''B'', ''10''), (''C'', ''11'')] = Inr ''11010''"
    by (simp add: encode_string_def)
  with e tb have "bits = ''11010''" by simp
  with d t enc example_tree show ?thesis by simp
qed

text \<open>
  The claim as stated fails for a single-symbol alphabet: the only codeword is empty,
  so two symbols encode to the empty bitstring, which decodes to the empty sequence.
\<close>

theorem C1_single_symbol_no_roundtrip:
  "build_huffman_tree [''a''] [1 :: real] = Inr (Some (HuffmanNode (Some ''a'') 1 None None)) \<and>
   generate_huffman_codes (Some (HuffmanNode (Some ''a'') (1 :: real) None None)) =
     Inr [(''a'', '''')] \<and>
   encode_string ''aa'' [(''a'', '''')] = Inr '''' \<and>
   decode_string '''' (HuffmanNode (Some ''a'') (1 :: real) None None) = Inr '''' \<and>
   '''' \<noteq> ''aa''"
  by (simp add: build_huffman_tree_def merge_loop.simps init_node_def
      generate_huffman_codes_def encode_string_def decode_string_def)

end
